theory Spec2Isabelle
  imports Main
begin

unbundle bit_operations_syntax

section \<open>Python runtime errors as values\<close>

text \<open>
  The two functions of \<^verbatim>\<open>netcore1.py\<close> use two operations that can raise:
  \<^verbatim>\<open>%\<close> (ZeroDivisionError on a zero modulus) and list indexing (IndexError out of
  range). Both are results of the model, so that "does not raise" is a statement
  about the value returned.
\<close>

datatype py_error = ZeroDivisionError | IndexError

text \<open>Python's \<^verbatim>\<open>a % b\<close> on ints: floor modulus, the sign follows the divisor,
  as HOL's \<open>mod\<close> on \<open>int\<close> does; a zero divisor raises.\<close>

definition py_mod :: "int \<Rightarrow> int \<Rightarrow> py_error + int" where
  "py_mod a b = (if b = 0 then Inl ZeroDivisionError else Inr (a mod b))"

text \<open>Python's \<^verbatim>\<open>xs[i]\<close>: an index in \<open>[-len, 0)\<close> counts from the end.\<close>

definition py_getitem :: "'a list \<Rightarrow> int \<Rightarrow> py_error + 'a" where
  "py_getitem xs i =
     (if 0 \<le> i then
        (if i < int (length xs) then Inr (xs ! nat i) else Inl IndexError)
      else
        (if - int (length xs) \<le> i then Inr (xs ! nat (int (length xs) + i))
         else Inl IndexError))"

section \<open>find_maximum_remainder\<close>

subsection \<open>The partitioning loop (lines 13-20)\<close>

text \<open>The state of the loop is the pair \<open>(evens, odds)\<close>; \<^verbatim>\<open>value & 1\<close> is
  truthy when it is not zero.\<close>

definition partition_step :: "int \<Rightarrow> int \<Rightarrow> int list \<times> int list \<Rightarrow> py_error + (int list \<times> int list)" where
  "partition_step k v s =
     (case py_mod v k of
        Inl e \<Rightarrow> Inl e
      | Inr r \<Rightarrow>
          (let remainder = (if r < 0 then r + k else r) in
           if v AND 1 \<noteq> 0 then Inr (fst s, snd s @ [remainder])
           else Inr (fst s @ [remainder], snd s)))"

fun partition_loop :: "int \<Rightarrow> int list \<Rightarrow> int list \<times> int list \<Rightarrow> py_error + (int list \<times> int list)" where
  "partition_loop k [] s = Inr s"
| "partition_loop k (v # vs) s =
     (case partition_step k v s of
        Inl e \<Rightarrow> Inl e
      | Inr s' \<Rightarrow> partition_loop k vs s')"

subsection \<open>bisect_left of the standard library\<close>

text \<open>
  \<^verbatim>\<open>bisect.bisect_left(a, x)\<close> with the default bounds is the loop
  \<^verbatim>\<open>lo, hi = 0, len(a); while lo < hi: mid = (lo + hi) // 2;
  if a[mid] < x: lo = mid + 1 else: hi = mid; return lo\<close>.
  \<open>lo\<close>, \<open>mid\<close> and \<open>hi\<close> are never negative, so they are naturals here; the read
  \<^verbatim>\<open>a[mid]\<close> keeps its range check.
\<close>

function bisect_loop :: "int list \<Rightarrow> int \<Rightarrow> nat \<Rightarrow> nat \<Rightarrow> py_error + nat" where
  "bisect_loop a x lo hi =
     (if lo < hi then
        (if (lo + hi) div 2 < length a then
           (if a ! ((lo + hi) div 2) < x then bisect_loop a x ((lo + hi) div 2 + 1) hi
            else bisect_loop a x lo ((lo + hi) div 2))
         else Inl IndexError)
      else Inr lo)"
  by pat_completeness auto
termination
  by (relation "measure (\<lambda>(a, x, lo, hi). hi - lo)") auto

declare bisect_loop.simps [simp del]

definition bisect_left :: "int list \<Rightarrow> int \<Rightarrow> py_error + int" where
  "bisect_left a x =
     (case bisect_loop a x 0 (length a) of
        Inl e \<Rightarrow> Inl e
      | Inr i \<Rightarrow> Inr (int i))"

subsection \<open>The search loop (lines 25-46)\<close>

text \<open>One \<^verbatim>\<open>if\<close> block of the loop body either returns from the function or goes
  on with a value of \<open>best\<close>.\<close>

datatype flow = Return int | Continue int

definition check_below :: "int \<Rightarrow> int list \<Rightarrow> int \<Rightarrow> int \<Rightarrow> int \<Rightarrow> py_error + flow" where
  "check_below k odds even_rem idx best =
     (if idx > 0 then
        (case py_getitem odds (idx - 1) of
           Inl e \<Rightarrow> Inl e
         | Inr od \<Rightarrow>
             (let candidate = even_rem + od in
              if candidate > best then
                (if candidate = k - 1 then Inr (Return candidate)
                 else Inr (Continue candidate))
              else Inr (Continue best)))
      else Inr (Continue best))"

definition check_wrap :: "int \<Rightarrow> int list \<Rightarrow> int \<Rightarrow> int \<Rightarrow> int \<Rightarrow> py_error + flow" where
  "check_wrap k odds even_rem idx best =
     (if idx < int (length odds) then
        (case py_getitem odds idx of
           Inl e \<Rightarrow> Inl e
         | Inr od \<Rightarrow>
             (case py_mod (even_rem + od) k of
                Inl e \<Rightarrow> Inl e
              | Inr candidate \<Rightarrow>
                  if candidate > best then
                    (if candidate = k - 1 then Inr (Return candidate)
                     else Inr (Continue candidate))
                  else Inr (Continue best)))
      else Inr (Continue best))"

fun search_loop :: "int \<Rightarrow> int list \<Rightarrow> int list \<Rightarrow> int \<Rightarrow> py_error + int" where
  "search_loop k odds [] best = Inr best"
| "search_loop k odds (even_rem # rest) best =
     (case bisect_left odds (k - even_rem) of
        Inl e \<Rightarrow> Inl e
      | Inr idx \<Rightarrow>
          (case check_below k odds even_rem idx best of
             Inl e \<Rightarrow> Inl e
           | Inr (Return b) \<Rightarrow> Inr b
           | Inr (Continue b) \<Rightarrow>
               (case check_wrap k odds even_rem idx b of
                  Inl e \<Rightarrow> Inl e
                | Inr (Return b') \<Rightarrow> Inr b'
                | Inr (Continue b') \<Rightarrow> search_loop k odds rest b')))"

definition find_maximum_remainder :: "int \<Rightarrow> int list \<Rightarrow> int \<Rightarrow> py_error + int" where
  "find_maximum_remainder n arr k =
     (if k = 1 then Inr 0
      else
        (case partition_loop k arr ([], []) of
           Inl e \<Rightarrow> Inl e
         | Inr (evens, odds) \<Rightarrow> search_loop k (sort odds) (sort evens) 0))"

subsection \<open>The same loop with no early return\<close>

text \<open>
  The variant the early-return claim compares with: lines 36-37 and 43-44 are left out,
  everything else is as above, so the loop always runs over all of \<open>evens\<close> and
  returns \<open>best\<close> at line 46.
\<close>

definition check_below_noexit :: "int \<Rightarrow> int list \<Rightarrow> int \<Rightarrow> int \<Rightarrow> int \<Rightarrow> py_error + int" where
  "check_below_noexit k odds even_rem idx best =
     (if idx > 0 then
        (case py_getitem odds (idx - 1) of
           Inl e \<Rightarrow> Inl e
         | Inr od \<Rightarrow>
             (let candidate = even_rem + od in
              if candidate > best then Inr candidate else Inr best))
      else Inr best)"

definition check_wrap_noexit :: "int \<Rightarrow> int list \<Rightarrow> int \<Rightarrow> int \<Rightarrow> int \<Rightarrow> py_error + int" where
  "check_wrap_noexit k odds even_rem idx best =
     (if idx < int (length odds) then
        (case py_getitem odds idx of
           Inl e \<Rightarrow> Inl e
         | Inr od \<Rightarrow>
             (case py_mod (even_rem + od) k of
                Inl e \<Rightarrow> Inl e
              | Inr candidate \<Rightarrow> if candidate > best then Inr candidate else Inr best))
      else Inr best)"

fun search_loop_noexit :: "int \<Rightarrow> int list \<Rightarrow> int list \<Rightarrow> int \<Rightarrow> py_error + int" where
  "search_loop_noexit k odds [] best = Inr best"
| "search_loop_noexit k odds (even_rem # rest) best =
     (case bisect_left odds (k - even_rem) of
        Inl e \<Rightarrow> Inl e
      | Inr idx \<Rightarrow>
          (case check_below_noexit k odds even_rem idx best of
             Inl e \<Rightarrow> Inl e
           | Inr b \<Rightarrow>
               (case check_wrap_noexit k odds even_rem idx b of
                  Inl e \<Rightarrow> Inl e
                | Inr b' \<Rightarrow> search_loop_noexit k odds rest b')))"

definition find_maximum_remainder_noexit :: "int \<Rightarrow> int list \<Rightarrow> int \<Rightarrow> py_error + int" where
  "find_maximum_remainder_noexit n arr k =
     (if k = 1 then Inr 0
      else
        (case partition_loop k arr ([], []) of
           Inl e \<Rightarrow> Inl e
         | Inr (evens, odds) \<Rightarrow> search_loop_noexit k (sort odds) (sort evens) 0))"

subsection \<open>What the contract asks for\<close>

text \<open>The remainders \<open>(a + b) mod k\<close> of all pairs of an even element \<open>a\<close> and an odd
  element \<open>b\<close> of the array, and their maximum (0 when there is no pair).\<close>

definition pair_remainders :: "int list \<Rightarrow> int \<Rightarrow> int list" where
  "pair_remainders arr k = [(a + b) mod k. a \<leftarrow> filter even arr, b \<leftarrow> filter odd arr]"

definition max_pair_remainder :: "int list \<Rightarrow> int \<Rightarrow> int" where
  "max_pair_remainder arr k =
     (if pair_remainders arr k = [] then 0 else Max (set (pair_remainders arr k)))"

text \<open>The invariant of the data model: every remainder lies in \<open>[0, k)\<close>.\<close>

definition rems_in_range :: "int \<Rightarrow> int list \<Rightarrow> bool" where
  "rems_in_range k xs = list_all (\<lambda>r. 0 \<le> r \<and> r < k) xs"

section \<open>count_special_ranges\<close>

text \<open>Characters are kept abstract (\<open>'c\<close>): the function only tests membership in
  \<^verbatim>\<open>set(specials)\<close>. Line 51 builds the indicator list.\<close>

definition binary_of :: "'c list \<Rightarrow> 'c list \<Rightarrow> int list" where
  "binary_of types specials = map (\<lambda>ch. if ch \<in> set specials then 1 else 0) types"

text \<open>
  The inner \<^verbatim>\<open>while current > limit\<close> of \<^verbatim>\<open>count_at_most\<close> (lines 61-63). \<open>left\<close>
  starts at 0 and only grows, so it is a natural; \<^verbatim>\<open>binary[left]\<close> raises IndexError
  at \<open>left = len(binary)\<close>, which also bounds the loop.
\<close>

function shrink :: "int list \<Rightarrow> int \<Rightarrow> int \<Rightarrow> nat \<Rightarrow> py_error + (int \<times> nat)" where
  "shrink binary limit current left =
     (if current > limit then
        (if left < length binary then
           shrink binary limit (current - binary ! left) (left + 1)
         else Inl IndexError)
      else Inr (current, left))"
  by pat_completeness auto
termination
  by (relation "measure (\<lambda>(binary, limit, current, left). length binary - left)") auto

declare shrink.simps [simp del]

text \<open>The \<^verbatim>\<open>for right, val in enumerate(binary)\<close> loop (lines 59-64) over the state
  \<open>(tot, current, left)\<close>, \<open>tot\<close> being the source's \<^verbatim>\<open>total\<close>.\<close>

fun scan :: "int list \<Rightarrow> int \<Rightarrow> (nat \<times> int) list \<Rightarrow> int \<times> int \<times> nat \<Rightarrow> py_error + int" where
  "scan binary limit [] (tot, current, left) = Inr tot"
| "scan binary limit ((right, val) # rest) (tot, current, left) =
     (case shrink binary limit (current + val) left of
        Inl e \<Rightarrow> Inl e
      | Inr (current', left') \<Rightarrow>
          scan binary limit rest (tot + (int right - int left' + 1), current', left'))"

definition count_at_most :: "int list \<Rightarrow> int \<Rightarrow> py_error + int" where
  "count_at_most binary limit =
     (if limit < 0 then Inr 0
      else scan binary limit (enumerate 0 binary) (0, 0, 0))"

definition count_special_ranges :: "int \<Rightarrow> int \<Rightarrow> int \<Rightarrow> int \<Rightarrow> 'c list \<Rightarrow> 'c list \<Rightarrow> py_error + int" where
  "count_special_ranges n k lower upper types specials =
     (case count_at_most (binary_of types specials) upper of
        Inl e \<Rightarrow> Inl e
      | Inr at_most_upper \<Rightarrow>
          (case count_at_most (binary_of types specials) (lower - 1) of
             Inl e \<Rightarrow> Inl e
           | Inr below_lower \<Rightarrow> Inr (at_most_upper - below_lower)))"

subsection \<open>The brute-force enumeration of the contract\<close>

text \<open>The number of special characters among positions \<open>i..j\<close> (both included) of
  \<open>types\<close>, all pairs \<open>i \<le> j\<close> of positions, and the number of those pairs whose count
  lies in \<open>[lower, upper]\<close>.\<close>

definition special_count :: "'c list \<Rightarrow> 'c list \<Rightarrow> nat \<Rightarrow> nat \<Rightarrow> nat" where
  "special_count types specials i j =
     length (filter (\<lambda>ch. ch \<in> set specials) (take (Suc j - i) (drop i types)))"

definition all_substrings :: "nat \<Rightarrow> (nat \<times> nat) list" where
  "all_substrings n = concat (map (\<lambda>i. map (Pair i) [i..<n]) [0..<n])"

definition brute_force_count :: "int \<Rightarrow> int \<Rightarrow> 'c list \<Rightarrow> 'c list \<Rightarrow> int" where
  "brute_force_count lower upper types specials =
     int (length (filter
       (\<lambda>(i, j). lower \<le> int (special_count types specials i j)
                \<and> int (special_count types specials i j) \<le> upper)
       (all_substrings (length types))))"

subsection \<open>Prefix sums and windows, for the proofs\<close>

text \<open>\<open>psum b i\<close> is the sum of the first \<open>i\<close> entries of \<open>b\<close>, so the window of
  positions \<open>i..j\<close> sums to \<open>psum b (Suc j) - psum b i\<close>; \<open>windows b limit j\<close> are the
  start positions of the windows that end at \<open>j\<close> and sum to at most \<open>limit\<close>.\<close>

definition psum :: "int list \<Rightarrow> nat \<Rightarrow> int" where
  "psum b i = sum_list (take i b)"

definition windows :: "int list \<Rightarrow> int \<Rightarrow> nat \<Rightarrow> nat set" where
  "windows b limit j = {i \<in> {..j}. psum b (Suc j) - psum b i \<le> limit}"

section \<open>Properties of find_maximum_remainder\<close>

subsection \<open>Partitioning and binary search\<close>

lemma and_one_odd: "((v::int) AND 1 \<noteq> 0) = odd v"
  by (simp add: and_one_eq odd_iff_mod_2_eq_one)

lemma partition_step_pos:
  assumes "1 \<le> k"
  shows "partition_step k v (es, os) =
           Inr (if odd v then (es, os @ [v mod k]) else (es @ [v mod k], os))"
proof -
  have "\<not> v mod k < 0" using assms by (simp add: not_less)
  then show ?thesis
    using assms by (simp add: partition_step_def py_mod_def and_one_odd)
qed

lemma partition_loop_pos:
  assumes "1 \<le> k"
  shows "partition_loop k arr (es, os) =
           Inr (es @ map (\<lambda>v. v mod k) (filter even arr),
                os @ map (\<lambda>v. v mod k) (filter odd arr))"
  using assms
  by (induction arr arbitrary: es os) (simp_all add: partition_step_pos)

lemma partition_loop_append:
  "partition_loop k (xs @ ys) s =
     (case partition_loop k xs s of Inl e \<Rightarrow> Inl e | Inr s' \<Rightarrow> partition_loop k ys s')"
  by (induction xs arbitrary: s) (simp_all split: sum.splits)

lemma rems_in_range_mod:
  "1 \<le> k \<Longrightarrow> rems_in_range k (map (\<lambda>v. v mod k) xs)"
  by (simp add: rems_in_range_def list_all_iff)

lemma rems_in_range_sort: "rems_in_range k (sort xs) = rems_in_range k xs"
  by (simp add: rems_in_range_def list_all_iff)

lemma bisect_loop_ok:
  assumes "hi \<le> length a" "lo \<le> hi" "sorted a"
    "\<forall>j<lo. a ! j < x" "\<forall>j. hi \<le> j \<and> j < length a \<longrightarrow> x \<le> a ! j"
  shows "\<exists>i. bisect_loop a x lo hi = Inr i \<and> lo \<le> i \<and> i \<le> hi
            \<and> (\<forall>j<i. a ! j < x) \<and> (\<forall>j. i \<le> j \<and> j < length a \<longrightarrow> x \<le> a ! j)"
  using assms
proof (induction a x lo hi rule: bisect_loop.induct)
  case (1 a x lo hi)
  let ?mid = "(lo + hi) div 2"
  show ?case
  proof (cases "lo < hi")
    case False
    with "1.prems" have "lo = hi" by simp
    with "1.prems" False show ?thesis by (subst bisect_loop.simps) auto
  next
    case True
    then have mid: "lo \<le> ?mid" "?mid < hi" by auto
    with "1.prems" have inb: "?mid < length a" by simp
    show ?thesis
    proof (cases "a ! ?mid < x")
      case less: True
      have below: "\<forall>j<?mid + 1. a ! j < x"
      proof (intro allI impI)
        fix j assume "j < ?mid + 1"
        then have "j \<le> ?mid" by simp
        with \<open>sorted a\<close> inb have "a ! j \<le> a ! ?mid" by (simp add: sorted_nth_mono)
        with less show "a ! j < x" by simp
      qed
      have "\<exists>i. bisect_loop a x (?mid + 1) hi = Inr i \<and> ?mid + 1 \<le> i \<and> i \<le> hi
            \<and> (\<forall>j<i. a ! j < x) \<and> (\<forall>j. i \<le> j \<and> j < length a \<longrightarrow> x \<le> a ! j)"
        using "1.IH"(1)[OF True inb less] "1.prems" mid below by simp
      then obtain i where i: "bisect_loop a x (?mid + 1) hi = Inr i" "?mid + 1 \<le> i" "i \<le> hi"
            "\<forall>j<i. a ! j < x" "\<forall>j. i \<le> j \<and> j < length a \<longrightarrow> x \<le> a ! j" by blast
      have "bisect_loop a x lo hi = Inr i"
        using True inb less i(1) by (subst bisect_loop.simps) simp
      with i mid show ?thesis by auto
    next
      case ge: False
      have above: "\<forall>j. ?mid \<le> j \<and> j < length a \<longrightarrow> x \<le> a ! j"
      proof (intro allI impI)
        fix j assume "?mid \<le> j \<and> j < length a"
        with \<open>sorted a\<close> have "a ! ?mid \<le> a ! j" by (simp add: sorted_nth_mono)
        with ge show "x \<le> a ! j" by simp
      qed
      have "\<exists>i. bisect_loop a x lo ?mid = Inr i \<and> lo \<le> i \<and> i \<le> ?mid
            \<and> (\<forall>j<i. a ! j < x) \<and> (\<forall>j. i \<le> j \<and> j < length a \<longrightarrow> x \<le> a ! j)"
        using "1.IH"(2)[OF True inb ge] "1.prems" mid above by simp
      then obtain i where i: "bisect_loop a x lo ?mid = Inr i" "lo \<le> i" "i \<le> ?mid"
            "\<forall>j<i. a ! j < x" "\<forall>j. i \<le> j \<and> j < length a \<longrightarrow> x \<le> a ! j" by blast
      have "bisect_loop a x lo hi = Inr i"
        using True inb ge i(1) by (subst bisect_loop.simps) simp
      with i mid show ?thesis by auto
    qed
  qed
qed

lemma bisect_left_ok:
  assumes "sorted a"
  shows "\<exists>i. bisect_left a x = Inr (int i) \<and> i \<le> length a
            \<and> (\<forall>j<i. a ! j < x) \<and> (\<forall>j. i \<le> j \<and> j < length a \<longrightarrow> x \<le> a ! j)"
proof -
  have "\<exists>i. bisect_loop a x 0 (length a) = Inr i \<and> 0 \<le> i \<and> i \<le> length a
            \<and> (\<forall>j<i. a ! j < x) \<and> (\<forall>j. i \<le> j \<and> j < length a \<longrightarrow> x \<le> a ! j)"
    using assms by (intro bisect_loop_ok) simp_all
  then show ?thesis by (auto simp: bisect_left_def)
qed


lemma py_getitem_nat: "i < length xs \<Longrightarrow> py_getitem xs (int i) = Inr (xs ! i)"
  by (simp add: py_getitem_def)

lemma check_below_flow:
  "check_below k odds e idx best =
     (case check_below_noexit k odds e idx best of
        Inl err \<Rightarrow> Inl err
      | Inr b \<Rightarrow> if b > best \<and> b = k - 1 then Inr (Return b) else Inr (Continue b))"
  by (simp add: check_below_def check_below_noexit_def Let_def split: sum.splits)

lemma check_wrap_flow:
  "check_wrap k odds e idx best =
     (case check_wrap_noexit k odds e idx best of
        Inl err \<Rightarrow> Inl err
      | Inr b \<Rightarrow> if b > best \<and> b = k - 1 then Inr (Return b) else Inr (Continue b))"
  by (simp add: check_wrap_def check_wrap_noexit_def split: sum.splits)

lemma check_below_noexit_ok:
  assumes "i \<le> length odds" "\<forall>j<i. odds ! j < k - e" "best \<le> k - 1"
  shows "\<exists>b. check_below_noexit k odds e (int i) best = Inr b \<and> best \<le> b \<and> b \<le> k - 1"
proof (cases "i = 0")
  case True
  with assms show ?thesis by (simp add: check_below_noexit_def)
next
  case False
  then have pos: "0 < i" by simp
  then have idx: "int i - 1 = int (i - 1)" by simp
  from pos assms(1) have "i - 1 < length odds" by simp
  then have get: "py_getitem odds (int i - 1) = Inr (odds ! (i - 1))"
    unfolding idx by (rule py_getitem_nat)
  from pos assms(2) have "odds ! (i - 1) < k - e" by simp
  then have "e + odds ! (i - 1) \<le> k - 1" by simp
  with pos get assms(3) show ?thesis
    by (simp add: check_below_noexit_def Let_def)
qed

lemma check_wrap_noexit_ok:
  assumes "1 \<le> k" "i \<le> length odds" "best \<le> k - 1"
  shows "\<exists>b. check_wrap_noexit k odds e (int i) best = Inr b \<and> best \<le> b \<and> b \<le> k - 1"
proof (cases "i < length odds")
  case False
  with assms show ?thesis by (simp add: check_wrap_noexit_def)
next
  case True
  then have get: "py_getitem odds (int i) = Inr (odds ! i)" by (rule py_getitem_nat)
  from assms(1) have "(e + odds ! i) mod k \<le> k - 1"
    using pos_mod_bound[of k "e + odds ! i"] by simp
  with True get assms show ?thesis
    by (simp add: check_wrap_noexit_def py_mod_def)
qed

lemma search_loop_noexit_ok:
  assumes "1 \<le> k" "sorted odds" "best \<le> k - 1"
  shows "\<exists>r. search_loop_noexit k odds evens best = Inr r \<and> best \<le> r \<and> r \<le> k - 1"
  using assms(3)
proof (induction evens arbitrary: best)
  case Nil
  then show ?case by simp
next
  case (Cons e rest)
  obtain i where i: "bisect_left odds (k - e) = Inr (int i)" "i \<le> length odds"
      "\<forall>j<i. odds ! j < k - e"
    using bisect_left_ok[OF assms(2), of "k - e"] by blast
  obtain b where b: "check_below_noexit k odds e (int i) best = Inr b" "best \<le> b" "b \<le> k - 1"
    using check_below_noexit_ok[OF i(2) i(3) Cons.prems] by blast
  obtain b' where b': "check_wrap_noexit k odds e (int i) b = Inr b'" "b \<le> b'" "b' \<le> k - 1"
    using check_wrap_noexit_ok[OF assms(1) i(2) b(3)] by blast
  obtain r where r: "search_loop_noexit k odds rest b' = Inr r" "b' \<le> r" "r \<le> k - 1"
    using Cons.IH[OF b'(3)] by blast
  from i(1) b(1) b'(1) r(1) have "search_loop_noexit k odds (e # rest) best = Inr r" by simp
  with b(2) b'(2) r(2,3) show ?case by simp
qed

lemma search_loop_eq_noexit:
  assumes "1 \<le> k" "sorted odds" "best \<le> k - 1"
  shows "search_loop k odds evens best = search_loop_noexit k odds evens best"
  using assms(3)
proof (induction evens arbitrary: best)
  case Nil
  then show ?case by simp
next
  case (Cons e rest)
  obtain i where i: "bisect_left odds (k - e) = Inr (int i)" "i \<le> length odds"
      "\<forall>j<i. odds ! j < k - e"
    using bisect_left_ok[OF assms(2), of "k - e"] by blast
  obtain b where b: "check_below_noexit k odds e (int i) best = Inr b" "best \<le> b" "b \<le> k - 1"
    using check_below_noexit_ok[OF i(2) i(3) Cons.prems] by blast
  obtain b' where b': "check_wrap_noexit k odds e (int i) b = Inr b'" "b \<le> b'" "b' \<le> k - 1"
    using check_wrap_noexit_ok[OF assms(1) i(2) b(3)] by blast
  obtain r where r: "search_loop_noexit k odds rest b' = Inr r" "b' \<le> r" "r \<le> k - 1"
    using search_loop_noexit_ok[OF assms(1) assms(2) b'(3)] by blast
  have full: "search_loop_noexit k odds (e # rest) best = Inr r"
    using i(1) b(1) b'(1) r(1) by simp
  show ?case
  proof (cases "b > best \<and> b = k - 1")
    case True
    with b' r have "r = k - 1" by simp
    moreover have "search_loop k odds (e # rest) best = Inr b"
      using i(1) b(1) True by (simp add: check_below_flow)
    ultimately show ?thesis using full True by simp
  next
    case first: False
    show ?thesis
    proof (cases "b' > b \<and> b' = k - 1")
      case True
      with r have "r = k - 1" by simp
      moreover have "search_loop k odds (e # rest) best = Inr b'"
        using i(1) b(1) b'(1) first True by (auto simp add: check_below_flow check_wrap_flow)
      ultimately show ?thesis using full True by simp
    next
      case False
      have "search_loop k odds (e # rest) best = search_loop k odds rest b'"
        using i(1) b(1) b'(1) first False by (auto simp add: check_below_flow check_wrap_flow)
      with Cons.IH[OF b'(3)] full r(1) show ?thesis by simp
    qed
  qed
qed

lemma find_maximum_remainder_unfold:
  assumes "1 \<le> k"
  shows "find_maximum_remainder n arr k =
           (if k = 1 then Inr 0
            else search_loop k (sort (map (\<lambda>v. v mod k) (filter odd arr)))
                               (sort (map (\<lambda>v. v mod k) (filter even arr))) 0)"
    and "find_maximum_remainder_noexit n arr k =
           (if k = 1 then Inr 0
            else search_loop_noexit k (sort (map (\<lambda>v. v mod k) (filter odd arr)))
                               (sort (map (\<lambda>v. v mod k) (filter even arr))) 0)"
  using partition_loop_pos[OF assms, of arr "[]" "[]"]
  by (simp_all add: find_maximum_remainder_def find_maximum_remainder_noexit_def)

lemma find_maximum_remainder_eq_noexit:
  assumes "1 \<le> k"
  shows "find_maximum_remainder n arr k = find_maximum_remainder_noexit n arr k"
proof -
  have "(0::int) \<le> k - 1" using assms by simp
  then show ?thesis
    using search_loop_eq_noexit[OF assms sorted_sort, of 0]
    by (simp add: find_maximum_remainder_unfold[OF assms])
qed

lemma find_maximum_remainder_bounds:
  assumes "1 \<le> k"
  shows "\<exists>r. find_maximum_remainder n arr k = Inr r \<and> 0 \<le> r \<and> r \<le> k - 1"
proof (cases "k = 1")
  case True
  then show ?thesis by (simp add: find_maximum_remainder_def)
next
  case False
  have z: "(0::int) \<le> k - 1" using assms by simp
  obtain r where "search_loop_noexit k (sort (map (\<lambda>v. v mod k) (filter odd arr)))
                    (sort (map (\<lambda>v. v mod k) (filter even arr))) 0 = Inr r" "0 \<le> r" "r \<le> k - 1"
    using search_loop_noexit_ok[OF assms sorted_sort z] by blast
  then show ?thesis
    using False search_loop_eq_noexit[OF assms sorted_sort z]
    by (simp add: find_maximum_remainder_unfold[OF assms])
qed

lemma search_loop_no_odds: "search_loop k [] evens best = Inr best"
  by (induction evens)
     (simp_all add: bisect_left_def bisect_loop.simps check_below_def check_wrap_def)

subsection \<open>The claims about find_maximum_remainder\<close>

text \<open>
  C1 (the contract: the result is the maximum of \<open>(a + b) mod k\<close> over all pairs of an
  even and an odd element). The code does not compute it: on \<open>arr = [8, 3, 9]\<close>,
  \<open>k = 10\<close> it returns 1, while the pair \<open>(8, 9)\<close> gives \<open>17 mod 10 = 7\<close>. When no
  odd remainder lies below \<open>k - even_rem\<close>, line 40 takes the smallest odd remainder,
  which gives the smallest wrapped sum, where the largest one is needed.
\<close>

theorem find_maximum_remainder_misses_maximum:
  "find_maximum_remainder 3 [8, 3, 9] 10 = Inr 1 \<and> max_pair_remainder [8, 3, 9] 10 = 7"
  by (simp add: find_maximum_remainder_def partition_step_def py_mod_def bisect_left_def
      bisect_loop.simps check_below_def check_wrap_def py_getitem_def
      max_pair_remainder_def pair_remainders_def)

text \<open>
  C3: for every array and every \<open>k \<ge> 1\<close> the function returns a value, and the value
  lies in \<open>[0, k - 1]\<close>.
\<close>

theorem find_maximum_remainder_in_range:
  assumes "1 \<le> k"
  shows "\<exists>r. find_maximum_remainder n arr k = Inr r \<and> 0 \<le> r \<and> r \<le> k - 1"
  using assms by (rule find_maximum_remainder_bounds)

theorem find_maximum_remainder_in_range_witness:
  "(1::int) \<le> 3 \<and> (\<exists>r. find_maximum_remainder 5 [1, 2, 3, 4, 5] 3 = Inr r \<and> 0 \<le> r \<and> r \<le> 3 - 1)"
  using find_maximum_remainder_in_range[of 3 5 "[1, 2, 3, 4, 5]"] by simp

text \<open>
  C4: for every array and every \<open>k \<ge> 2\<close>, the function with its two early returns gives
  the same result as the loop that never returns early and runs over all of \<open>evens\<close>.
\<close>

theorem early_return_same_result:
  assumes "2 \<le> k"
  shows "find_maximum_remainder n arr k = find_maximum_remainder_noexit n arr k"
proof -
  from assms have "1 \<le> k" by simp
  then show ?thesis by (rule find_maximum_remainder_eq_noexit)
qed

theorem early_return_same_result_witness:
  "(2::int) \<le> 3 \<and>
   find_maximum_remainder 5 [1, 2, 3, 4, 5] 3 = find_maximum_remainder_noexit 5 [1, 2, 3, 4, 5] 3"
  using early_return_same_result[of 3 5 "[1, 2, 3, 4, 5]"] by simp

text \<open>
  C5: the result is 0 when \<open>k = 1\<close>, whatever the array, and for every \<open>k \<ge> 1\<close> when the
  array has no even element or no odd element (the empty array included).
\<close>

theorem find_maximum_remainder_zero:
  "(k = 1 \<longrightarrow> find_maximum_remainder n arr k = Inr 0) \<and>
   (1 \<le> k \<and> ((\<forall>v\<in>set arr. odd v) \<or> (\<forall>v\<in>set arr. even v))
      \<longrightarrow> find_maximum_remainder n arr k = Inr 0)"
proof (intro conjI impI)
  assume "k = 1"
  then show "find_maximum_remainder n arr k = Inr 0"
    by (simp add: find_maximum_remainder_def)
next
  assume h: "1 \<le> k \<and> ((\<forall>v\<in>set arr. odd v) \<or> (\<forall>v\<in>set arr. even v))"
  then have k: "1 \<le> k" by simp
  from h consider "\<forall>v\<in>set arr. odd v" | "\<forall>v\<in>set arr. even v" by blast
  then show "find_maximum_remainder n arr k = Inr 0"
  proof cases
    case 1
    then have "filter even arr = []" by (simp add: filter_empty_conv)
    then show ?thesis by (simp add: find_maximum_remainder_unfold[OF k])
  next
    case 2
    then have "filter odd arr = []" by (simp add: filter_empty_conv)
    then show ?thesis
      by (simp add: find_maximum_remainder_unfold[OF k] search_loop_no_odds)
  qed
qed

theorem find_maximum_remainder_zero_witness:
  "find_maximum_remainder 2 [2, 3] 1 = Inr 0
   \<and> find_maximum_remainder 3 [1, 3, 5] 4 = Inr 0
   \<and> find_maximum_remainder 2 [2, 4] 4 = Inr 0
   \<and> find_maximum_remainder 0 [] 7 = Inr 0"
  using find_maximum_remainder_zero[of 1 2 "[2, 3]"]
    find_maximum_remainder_zero[of 4 3 "[1, 3, 5]"]
    find_maximum_remainder_zero[of 4 2 "[2, 4]"]
    find_maximum_remainder_zero[of 7 0 "[]"]
  by simp

text \<open>
  C8: for \<open>k \<ge> 1\<close> every remainder appended to \<open>evens\<close> and \<open>odds\<close> lies in \<open>[0, k)\<close>:
  one step of the partitioning loop keeps the invariant, it holds for both lists after
  every number \<open>i\<close> of iterations, and it holds for both lists after sorting.
\<close>

theorem partition_remainders_in_range:
  assumes "1 \<le> k"
  shows "(\<forall>v es os. rems_in_range k es \<and> rems_in_range k os \<longrightarrow>
            (\<exists>es' os'. partition_step k v (es, os) = Inr (es', os')
                \<and> rems_in_range k es' \<and> rems_in_range k os'))
       \<and> (\<forall>i\<le>length arr. \<exists>evens odds.
            partition_loop k (take i arr) ([], []) = Inr (evens, odds)
            \<and> rems_in_range k evens \<and> rems_in_range k odds)
       \<and> (\<exists>evens odds.
            partition_loop k arr ([], []) = Inr (evens, odds)
            \<and> rems_in_range k (sort evens) \<and> rems_in_range k (sort odds))"
proof (intro conjI allI impI)
  fix v es os
  assume "rems_in_range k es \<and> rems_in_range k os"
  then show "\<exists>es' os'. partition_step k v (es, os) = Inr (es', os')
                \<and> rems_in_range k es' \<and> rems_in_range k os'"
    using assms by (simp add: partition_step_pos rems_in_range_def)
next
  fix i
  show "\<exists>evens odds. partition_loop k (take i arr) ([], []) = Inr (evens, odds)
            \<and> rems_in_range k evens \<and> rems_in_range k odds"
    using assms by (simp add: partition_loop_pos rems_in_range_mod)
next
  show "\<exists>evens odds. partition_loop k arr ([], []) = Inr (evens, odds)
            \<and> rems_in_range k (sort evens) \<and> rems_in_range k (sort odds)"
    using assms by (simp add: partition_loop_pos rems_in_range_mod rems_in_range_sort)
qed

theorem partition_remainders_in_range_witness:
  "(1::int) \<le> 3
   \<and> (\<exists>es' os'. partition_step 3 5 ([1], [0]) = Inr (es', os')
          \<and> rems_in_range 3 es' \<and> rems_in_range 3 os')
   \<and> (\<exists>evens odds. partition_loop 3 (take 2 [1, 2, 3, 4, 5]) ([], []) = Inr (evens, odds)
          \<and> rems_in_range 3 evens \<and> rems_in_range 3 odds)
   \<and> (\<exists>evens odds. partition_loop 3 [1, 2, 3, 4, 5] ([], []) = Inr (evens, odds)
          \<and> rems_in_range 3 (sort evens) \<and> rems_in_range 3 (sort odds))"
proof -
  have k: "(1::int) \<le> 3" by simp
  have r: "rems_in_range 3 [1] \<and> rems_in_range 3 [0]" by (simp add: rems_in_range_def)
  have i: "(2::nat) \<le> length [1, 2, 3, 4, 5 :: int]" by simp
  note t = partition_remainders_in_range[OF k, of "[1, 2, 3, 4, 5]"]
  from t r have "\<exists>es' os'. partition_step 3 5 ([1], [0]) = Inr (es', os')
          \<and> rems_in_range 3 es' \<and> rems_in_range 3 os'" by blast
  moreover from t i have "\<exists>evens odds.
          partition_loop 3 (take 2 [1, 2, 3, 4, 5]) ([], []) = Inr (evens, odds)
          \<and> rems_in_range 3 evens \<and> rems_in_range 3 odds" by blast
  moreover from t have "\<exists>evens odds. partition_loop 3 [1, 2, 3, 4, 5] ([], []) = Inr (evens, odds)
          \<and> rems_in_range 3 (sort evens) \<and> rems_in_range 3 (sort odds)" by blast
  ultimately show ?thesis using k by blast
qed

text \<open>
  C10: for every array and every \<open>k \<ge> 1\<close> the function raises nothing: no
  ZeroDivisionError from either \<^verbatim>\<open>%\<close> and no IndexError from \<^verbatim>\<open>odds[idx - 1]\<close>,
  \<^verbatim>\<open>odds[idx]\<close> or the reads of the binary search; it returns a value.
\<close>

theorem find_maximum_remainder_no_error:
  assumes "1 \<le> k"
  shows "(\<exists>r. find_maximum_remainder n arr k = Inr r)
       \<and> (\<forall>e. find_maximum_remainder n arr k \<noteq> Inl e)"
  using find_maximum_remainder_bounds[OF assms, of n arr] by auto

theorem find_maximum_remainder_no_error_witness:
  "(1::int) \<le> 10 \<and> (\<exists>r. find_maximum_remainder 3 [8, 3, 9] 10 = Inr r)
   \<and> find_maximum_remainder 3 [8, 3, 9] 10 \<noteq> Inl IndexError
   \<and> find_maximum_remainder 3 [8, 3, 9] 10 \<noteq> Inl ZeroDivisionError"
  using find_maximum_remainder_no_error[of 10 3 "[8, 3, 9]"] by simp

section \<open>Properties of count_special_ranges\<close>

subsection \<open>The sliding window counts the windows of bounded sum\<close>

lemma psum_0: "psum b 0 = 0"
  by (simp add: psum_def)

lemma psum_Suc: "i < length b \<Longrightarrow> psum b (Suc i) = psum b i + b ! i"
  by (simp add: psum_def take_Suc_conv_app_nth)

lemma psum_mono:
  assumes "\<forall>x\<in>set b. 0 \<le> x" "i \<le> j"
  shows "psum b i \<le> psum b j"
proof -
  have "take j b = take i b @ take (j - i) (drop i b)"
    using assms(2) take_add[of i "j - i" b] by simp
  moreover have "0 \<le> sum_list (take (j - i) (drop i b))"
    using assms(1) by (intro sum_list_nonneg) (auto dest!: in_set_takeD in_set_dropD)
  ultimately show ?thesis by (simp add: psum_def)
qed

lemma shrink_ok:
  assumes "\<forall>x\<in>set b. 0 \<le> x" "0 \<le> limit" "m \<le> length b" "left \<le> m"
    "current = psum b m - psum b left" "\<forall>i<left. limit < psum b m - psum b i"
  shows "\<exists>left'. shrink b limit current left = Inr (psum b m - psum b left', left')
           \<and> left \<le> left' \<and> left' \<le> m \<and> psum b m - psum b left' \<le> limit
           \<and> (\<forall>i<left'. limit < psum b m - psum b i)"
  using assms
proof (induction b limit current left rule: shrink.induct)
  case (1 b limit current left)
  show ?case
  proof (cases "current > limit")
    case False
    then have "shrink b limit current left = Inr (current, left)"
      by (subst shrink.simps) simp
    with False "1.prems" show ?thesis by auto
  next
    case True
    have "left \<noteq> m" using True "1.prems"(2,5) by auto
    with "1.prems" have lt: "left < m" by simp
    with "1.prems" have inb: "left < length b" by simp
    have cur: "current - b ! left = psum b m - psum b (left + 1)"
      using "1.prems"(5) psum_Suc[OF inb] by simp
    have below: "\<forall>i<left + 1. limit < psum b m - psum b i"
    proof (intro allI impI)
      fix i assume "i < left + 1"
      then consider "i < left" | "i = left" by linarith
      then show "limit < psum b m - psum b i"
        using "1.prems"(5,6) True by cases auto
    qed
    have "\<exists>left'. shrink b limit (current - b ! left) (left + 1)
             = Inr (psum b m - psum b left', left')
           \<and> left + 1 \<le> left' \<and> left' \<le> m \<and> psum b m - psum b left' \<le> limit
           \<and> (\<forall>i<left'. limit < psum b m - psum b i)"
      using "1.IH"[OF True inb "1.prems"(1,2,3) _ cur below] lt by simp
    then obtain left' where l: "shrink b limit (current - b ! left) (left + 1)
             = Inr (psum b m - psum b left', left')"
           "left + 1 \<le> left'" "left' \<le> m" "psum b m - psum b left' \<le> limit"
           "\<forall>i<left'. limit < psum b m - psum b i" by blast
    have "shrink b limit current left = Inr (psum b m - psum b left', left')"
      using True inb l(1) by (subst shrink.simps) simp
    with l show ?thesis by auto
  qed
qed

lemma windows_interval:
  assumes "\<forall>x\<in>set b. 0 \<le> x" "left' \<le> Suc j" "psum b (Suc j) - psum b left' \<le> limit"
    "\<forall>i<left'. limit < psum b (Suc j) - psum b i"
  shows "windows b limit j = {left'..j}"
proof (intro set_eqI iffI)
  fix i assume "i \<in> windows b limit j"
  then have "i \<le> j" "psum b (Suc j) - psum b i \<le> limit" by (simp_all add: windows_def)
  with assms(4) have "\<not> i < left'" by auto
  with \<open>i \<le> j\<close> show "i \<in> {left'..j}" by simp
next
  fix i assume "i \<in> {left'..j}"
  then have i: "left' \<le> i" "i \<le> j" by simp_all
  from psum_mono[OF assms(1) i(1)] assms(3) have "psum b (Suc j) - psum b i \<le> limit" by simp
  with i show "i \<in> windows b limit j" by (simp add: windows_def)
qed

lemma scan_ok:
  assumes "\<forall>x\<in>set b. 0 \<le> x" "0 \<le> limit"
  shows "r \<le> length b \<Longrightarrow> left \<le> r \<Longrightarrow> current = psum b r - psum b left \<Longrightarrow>
         \<forall>i<left. limit < psum b r - psum b i \<Longrightarrow>
         scan b limit (enumerate r (drop r b)) (tot, current, left)
           = Inr (tot + (\<Sum>j = r..<length b. int (card (windows b limit j))))"
proof (induction "length b - r" arbitrary: r tot current left)
  case 0
  then show ?case by simp
next
  case (Suc d)
  then have inb: "r < length b" by simp
  have dr: "drop r b = b ! r # drop (Suc r) b"
    using inb by (simp add: Cons_nth_drop_Suc)
  have cur: "current + b ! r = psum b (Suc r) - psum b left"
    using Suc.prems(3) psum_Suc[OF inb] by simp
  have below: "\<forall>i<left. limit < psum b (Suc r) - psum b i"
  proof (intro allI impI)
    fix i assume "i < left"
    with Suc.prems(4) have "limit < psum b r - psum b i" by simp
    moreover have "psum b r \<le> psum b (Suc r)" using psum_mono[OF assms(1), of r "Suc r"] by simp
    ultimately show "limit < psum b (Suc r) - psum b i" by simp
  qed
  have m: "Suc r \<le> length b" "left \<le> Suc r" using inb Suc.prems(2) by simp_all
  obtain left' where l: "shrink b limit (current + b ! r) left
             = Inr (psum b (Suc r) - psum b left', left')"
           "left \<le> left'" "left' \<le> Suc r" "psum b (Suc r) - psum b left' \<le> limit"
           "\<forall>i<left'. limit < psum b (Suc r) - psum b i"
    using shrink_ok[OF assms m cur below] by blast
  have w: "windows b limit r = {left'..r}"
    using windows_interval[OF assms(1) l(3) l(4) l(5)] .
  have cnt: "int r - int left' + 1 = int (card (windows b limit r))"
    using l(3) by (simp add: w)
  have d: "d = length b - Suc r" using Suc.hyps(2) by simp
  have rec: "scan b limit (enumerate (Suc r) (drop (Suc r) b))
               (tot + (int r - int left' + 1), psum b (Suc r) - psum b left', left')
             = Inr (tot + (int r - int left' + 1)
                    + (\<Sum>j = Suc r..<length b. int (card (windows b limit j))))"
    using Suc.hyps(1)[OF d m(1) l(3) refl l(5)] .
  have split: "(\<Sum>j = r..<length b. int (card (windows b limit j)))
      = int (card (windows b limit r)) + (\<Sum>j = Suc r..<length b. int (card (windows b limit j)))"
    using inb by (simp add: sum.atLeast_Suc_lessThan)
  show ?case
    unfolding dr split using l(1) rec cnt by simp
qed

lemma windows_negative:
  assumes "\<forall>x\<in>set b. 0 \<le> x" "limit < 0"
  shows "windows b limit j = {}"
proof -
  have "\<not> psum b (Suc j) - psum b i \<le> limit" if "i \<le> j" for i
    using psum_mono[OF assms(1), of i "Suc j"] that assms(2) by simp
  then show ?thesis by (auto simp: windows_def)
qed

lemma count_at_most_eq:
  assumes "\<forall>x\<in>set b. 0 \<le> x"
  shows "count_at_most b limit = Inr (\<Sum>j<length b. int (card (windows b limit j)))"
proof (cases "limit < 0")
  case True
  then show ?thesis by (simp add: count_at_most_def windows_negative[OF assms])
next
  case False
  then have l: "0 \<le> limit" by simp
  have "scan b limit (enumerate 0 (drop 0 b)) (0, 0, 0)
          = Inr (0 + (\<Sum>j = 0..<length b. int (card (windows b limit j))))"
    by (rule scan_ok[OF assms l]) (simp_all add: psum_0)
  with False show ?thesis by (simp add: count_at_most_def atLeast0LessThan)
qed


lemma binary_of_nonneg: "\<forall>x\<in>set (binary_of types specials). 0 \<le> x"
  by (auto simp: binary_of_def)

lemma psum_binary_of:
  "psum (binary_of types specials) i
     = int (length (filter (\<lambda>ch. ch \<in> set specials) (take i types)))"
proof -
  have "sum_list (map (\<lambda>ch. if ch \<in> set specials then 1 else 0) xs)
          = int (length (filter (\<lambda>ch. ch \<in> set specials) xs))" for xs :: "'a list"
    by (induction xs) simp_all
  then show ?thesis by (simp add: psum_def binary_of_def take_map)
qed

lemma special_count_psum:
  assumes "i \<le> j"
  shows "int (special_count types specials i j)
           = psum (binary_of types specials) (Suc j) - psum (binary_of types specials) i"
proof -
  have "take (Suc j) types = take i types @ take (Suc j - i) (drop i types)"
    using assms take_add[of i "Suc j - i" types] by simp
  then show ?thesis by (simp add: psum_binary_of special_count_def)
qed

lemma length_filter_all_substrings:
  "length (filter P (all_substrings n)) = (\<Sum>i<n. card {j. j \<in> {..<n} \<and> i \<le> j \<and> P (i, j)})"
proof -
  have inner: "length (filter P (map (Pair i) [i..<n])) = card {j. j \<in> {..<n} \<and> i \<le> j \<and> P (i, j)}" for i
  proof -
    have "length (filter P (map (Pair i) [i..<n])) = length (filter (\<lambda>j. P (i, j)) [i..<n])"
      by (simp add: filter_map comp_def)
    also have "\<dots> = card ({j. P (i, j)} \<inter> set [i..<n])"
      by (rule distinct_length_filter) simp
    also have "{j. P (i, j)} \<inter> set [i..<n] = {j. j \<in> {..<n} \<and> i \<le> j \<and> P (i, j)}"
      by auto
    finally show ?thesis .
  qed
  have "length (filter P (concat (map f xs))) = (\<Sum>i\<leftarrow>xs. length (filter P (f i)))"
    for f :: "nat \<Rightarrow> (nat \<times> nat) list" and xs
    by (induction xs) simp_all
  then have "length (filter P (all_substrings n))
        = (\<Sum>i\<leftarrow>[0..<n]. length (filter P (map (Pair i) [i..<n])))"
    by (simp add: all_substrings_def)
  also have "\<dots> = (\<Sum>i\<leftarrow>[0..<n]. card {j. j \<in> {..<n} \<and> i \<le> j \<and> P (i, j)})"
    by (simp only: inner)
  also have "\<dots> = (\<Sum>i<n. card {j. j \<in> {..<n} \<and> i \<le> j \<and> P (i, j)})"
    by (simp add: sum_list_distinct_conv_sum_set atLeast0LessThan)
  finally show ?thesis .
qed

lemma triangle_swap:
  "(\<Sum>i<n. card {j. j \<in> {..<n} \<and> i \<le> j \<and> Q i j})
     = (\<Sum>j<n. card {i. i \<le> j \<and> Q i j})" for n :: nat
proof -
  have "(\<Sum>i\<in>{..<n}. \<Sum>j\<in>{j. j \<in> {..<n} \<and> (i \<le> j \<and> Q i j)}. (1::nat))
      = (\<Sum>j\<in>{..<n}. \<Sum>i\<in>{i. i \<in> {..<n} \<and> (i \<le> j \<and> Q i j)}. 1)"
    by (rule sum.swap_restrict) simp_all
  moreover have "{i. i \<in> {..<n} \<and> (i \<le> j \<and> Q i j)} = {i. i \<le> j \<and> Q i j}" if "j < n" for j
    using that by auto
  ultimately show ?thesis by simp
qed

lemma brute_force_count_windows:
  "brute_force_count lower upper types specials
     = (\<Sum>j<length types. int (card {i. i \<le> j
           \<and> lower \<le> psum (binary_of types specials) (Suc j) - psum (binary_of types specials) i
           \<and> psum (binary_of types specials) (Suc j) - psum (binary_of types specials) i \<le> upper}))"
proof -
  let ?b = "binary_of types specials"
  let ?P = "\<lambda>(i, j). lower \<le> int (special_count types specials i j)
                \<and> int (special_count types specials i j) \<le> upper"
  let ?Q = "\<lambda>i j. lower \<le> psum ?b (Suc j) - psum ?b i \<and> psum ?b (Suc j) - psum ?b i \<le> upper"
  have "{i. i \<le> j \<and> ?P (i, j)} = {i. i \<le> j \<and> ?Q i j}" for j
    by (auto simp: special_count_psum)
  then have "(\<Sum>j<length types. card {i. i \<le> j \<and> ?P (i, j)})
           = (\<Sum>j<length types. card {i. i \<le> j \<and> ?Q i j})" by simp
  moreover have "length (filter ?P (all_substrings (length types)))
           = (\<Sum>j<length types. card {i. i \<le> j \<and> ?P (i, j)})"
    unfolding length_filter_all_substrings by (rule triangle_swap)
  ultimately show ?thesis by (simp add: brute_force_count_def)
qed

lemma windows_diff:
  assumes "lower - 1 \<le> upper"
  shows "int (card (windows b upper j)) - int (card (windows b (lower - 1) j))
       = int (card {i. i \<le> j \<and> lower \<le> psum b (Suc j) - psum b i
                        \<and> psum b (Suc j) - psum b i \<le> upper})"
proof -
  have sub: "windows b (lower - 1) j \<subseteq> windows b upper j"
    using assms by (auto simp: windows_def)
  have fin: "finite (windows b (lower - 1) j)" by (simp add: windows_def)
  have "{i. i \<le> j \<and> lower \<le> psum b (Suc j) - psum b i \<and> psum b (Suc j) - psum b i \<le> upper}
       = windows b upper j - windows b (lower - 1) j"
    by (auto simp: windows_def)
  moreover have "card (windows b (lower - 1) j) \<le> card (windows b upper j)"
    by (rule card_mono[OF _ sub]) (simp add: windows_def)
  ultimately show ?thesis
    using card_Diff_subset[OF fin sub] by simp
qed

lemma count_special_ranges_eq:
  assumes "lower \<le> upper"
  shows "count_special_ranges n k lower upper types specials
           = Inr (brute_force_count lower upper types specials)"
proof -
  let ?b = "binary_of types specials"
  have l: "lower - 1 \<le> upper" using assms by simp
  have len: "length ?b = length types" by (simp add: binary_of_def)
  have "count_special_ranges n k lower upper types specials
          = Inr ((\<Sum>j<length types. int (card (windows ?b upper j)))
               - (\<Sum>j<length types. int (card (windows ?b (lower - 1) j))))"
    by (simp add: count_special_ranges_def count_at_most_eq[OF binary_of_nonneg] len)
  also have "(\<Sum>j<length types. int (card (windows ?b upper j)))
               - (\<Sum>j<length types. int (card (windows ?b (lower - 1) j)))
      = (\<Sum>j<length types. int (card (windows ?b upper j)) - int (card (windows ?b (lower - 1) j)))"
    by (simp add: sum_subtractf)
  also have "\<dots> = brute_force_count lower upper types specials"
    unfolding brute_force_count_windows by (simp add: windows_diff[OF l])
  finally show ?thesis .
qed

lemma psum_le_length:
  assumes "set b \<subseteq> {0, 1}"
  shows "psum b i \<le> int (length b)"
proof -
  have bound: "sum_list xs \<le> int (length xs)" if "set xs \<subseteq> {0, 1}" for xs :: "int list"
    using that by (induction xs) auto
  have "set (take i b) \<subseteq> {0, 1}" using assms by (auto dest: in_set_takeD)
  then have "sum_list (take i b) \<le> int (length (take i b))" by (rule bound)
  also have "\<dots> \<le> int (length b)" by simp
  finally show ?thesis by (simp only: psum_def)
qed

lemma windows_all:
  assumes "set b \<subseteq> {0, 1}"
  shows "windows b (int (length b)) j = {..j}"
proof -
  have nn: "\<forall>x\<in>set b. 0 \<le> x" using assms by auto
  have "psum b (Suc j) - psum b i \<le> int (length b)" for i
    using psum_le_length[OF assms, of "Suc j"] psum_mono[OF nn, of 0 i] by (simp add: psum_0)
  then show ?thesis by (auto simp: windows_def)
qed

lemma sum_Suc_lessThan: "(\<Sum>j<n. int (Suc j)) = int n * (int n + 1) div 2"
proof -
  have "2 * (\<Sum>j<n. int (Suc j)) = int n * (int n + 1)"
    by (induction n) (simp_all add: algebra_simps)
  then show ?thesis by simp
qed

lemma count_all_substrings:
  "count_special_ranges n k 0 (int (length types)) types specials
     = Inr (int (length types) * (int (length types) + 1) div 2)"
proof -
  let ?b = "binary_of types specials"
  have len: "length ?b = length types" by (simp add: binary_of_def)
  have ind: "set ?b \<subseteq> {0, 1}" by (auto simp: binary_of_def)
  have up: "count_at_most ?b (int (length types)) = Inr (\<Sum>j<length types. int (Suc j))"
    using windows_all[OF ind] by (simp add: count_at_most_eq[OF binary_of_nonneg] len)
  have lo: "count_at_most ?b (0 - 1) = Inr 0" by (simp add: count_at_most_def)
  show ?thesis
    unfolding count_special_ranges_def up lo sum_Suc_lessThan by simp
qed

lemma count_at_most_mono:
  assumes "set b \<subseteq> {0, 1}" "limit1 \<le> limit2"
  shows "\<exists>c1 c2. count_at_most b limit1 = Inr c1 \<and> count_at_most b limit2 = Inr c2 \<and> c1 \<le> c2"
proof -
  have nn: "\<forall>x\<in>set b. 0 \<le> x" using assms(1) by auto
  have "card (windows b limit1 j) \<le> card (windows b limit2 j)" for j
    using assms(2) by (intro card_mono) (auto simp: windows_def)
  then have "(\<Sum>j<length b. int (card (windows b limit1 j)))
           \<le> (\<Sum>j<length b. int (card (windows b limit2 j)))"
    by (intro sum_mono) simp
  then show ?thesis by (simp add: count_at_most_eq[OF nn])
qed

subsection \<open>The claims about count_special_ranges\<close>

text \<open>
  C2: for all \<open>types\<close>, \<open>specials\<close> and \<open>lower \<le> upper\<close>, the function returns the number
  of pairs of positions \<open>i \<le> j\<close> of \<open>types\<close> whose substring holds between \<open>lower\<close> and
  \<open>upper\<close> characters of \<open>specials\<close>: the brute-force enumeration.
\<close>

theorem count_special_ranges_brute_force:
  assumes "lower \<le> upper"
  shows "count_special_ranges n k lower upper types specials
           = Inr (brute_force_count lower upper types specials)"
  using assms by (rule count_special_ranges_eq)

theorem count_special_ranges_brute_force_witness:
  "(1::int) \<le> 2 \<and> count_special_ranges 5 2 1 2 ''abcab'' ''ab'' = Inr 11"
proof -
  have le: "(1::int) \<le> 2" by simp
  have "brute_force_count 1 2 ''abcab'' ''ab'' = 11" by code_simp
  with count_special_ranges_brute_force[OF le, of 5 2 "''abcab''" "''ab''"] le
  show ?thesis by simp
qed

text \<open>
  C6: with \<open>lower = 0\<close> and \<open>upper = len(types)\<close> the result is the number of all
  contiguous substrings, \<open>len(types) * (len(types) + 1) / 2\<close>.
\<close>

theorem count_special_ranges_all:
  "count_special_ranges n k 0 (int (length types)) types specials
     = Inr (int (length types) * (int (length types) + 1) div 2)"
  by (rule count_all_substrings)

theorem count_special_ranges_all_witness:
  "count_special_ranges 5 2 0 5 ''abcab'' ''ab'' = Inr 15"
  using count_special_ranges_all[of 5 2 "''abcab''" "''ab''"] by simp

text \<open>
  C7: on a list of 0/1 indicators \<^verbatim>\<open>count_at_most\<close> returns a value for every limit and
  is monotone in the limit, and it returns 0 for every negative limit.
\<close>

theorem count_at_most_monotone:
  assumes "set binary \<subseteq> {0, 1}" "limit1 \<le> limit2"
  shows "(\<exists>c1 c2. count_at_most binary limit1 = Inr c1
            \<and> count_at_most binary limit2 = Inr c2 \<and> c1 \<le> c2)
       \<and> (\<forall>limit<0. count_at_most binary limit = Inr 0)"
  using count_at_most_mono[OF assms] by (simp add: count_at_most_def)

theorem count_at_most_monotone_witness:
  "set [1, 1, 0, 1, 1] \<subseteq> {0, 1 :: int} \<and> (1::int) \<le> 2
   \<and> (\<exists>c1 c2. count_at_most [1, 1, 0, 1, 1] 1 = Inr c1
          \<and> count_at_most [1, 1, 0, 1, 1] 2 = Inr c2 \<and> c1 \<le> c2)
   \<and> count_at_most [1, 1, 0, 1, 1] (- 1) = Inr 0"
proof -
  have b: "set [1, 1, 0, 1, 1] \<subseteq> {0, 1 :: int}" by simp
  have l: "(1::int) \<le> 2" by simp
  have n: "(- 1 :: int) < 0" by simp
  from count_at_most_monotone[OF b l] n b l show ?thesis by blast
qed

section \<open>The unused parameters\<close>

text \<open>
  C9: \<open>n\<close> does not influence \<^verbatim>\<open>find_maximum_remainder\<close>, and \<open>n\<close> and \<open>k\<close> do not
  influence \<^verbatim>\<open>count_special_ranges\<close>: two runs that differ only there agree.
\<close>

theorem unused_parameters_ignored:
  "find_maximum_remainder n1 arr k = find_maximum_remainder n2 arr k
   \<and> count_special_ranges n1 k1 lower upper types specials
       = count_special_ranges n2 k2 lower upper types specials"
  by (simp add: find_maximum_remainder_def count_special_ranges_def)

end
